theory Spec2Isabelle
  imports Main "HOL-Library.AList" "HOL-Library.Char_ord" "HOL-Library.List_Lexorder"
begin

section \<open>Data model of reviewio/cli.py\<close>

text \<open>
  The program reads pull requests through PyGithub and only ever reads attributes of the
  objects it receives. The embedding keeps those attributes under their source names.

  \<^item> A \<open>NamedUser\<close> is identified by its login: PyGithub compares and hashes users by
    identity data, so the same account met on two pull requests is one dictionary key.
  \<^item> An entry of \<open>get_review_requests()\<close> is an object that is either a \<open>NamedUser\<close> or a
    \<open>Team\<close>; the source tells them apart with \<open>isinstance\<close>, the model with the sum type
    (\<open>Inl\<close> a user, \<open>Inr\<close> a team).
  \<^item> A review state is the string the API delivers; the source compares it with string
    literals, and so does the model.
  \<^item> \<open>datetime\<close> values are counted in microseconds, the resolution of Python's
    \<open>datetime\<close>; \<open>timedelta(days=d)\<close> is \<open>d\<close> days of microseconds.
  \<^item> \<open>additions\<close> and \<open>deletions\<close> are Python integers.
  \<^item> \<open>get_reviews()\<close> and \<open>get_review_requests()\<close> are remote calls in the source; the
    model holds what they return as fields of the pull request. \<open>get_review_requests()\<close>
    returns a pair of lists, and the source calls it once for each component; the model has
    one answer for both calls.
\<close>

datatype named_user = NamedUser (login: string)

datatype team = Team (slug: string)

type_synonym requested = "named_user + team"

datatype review = Review (rev_user: named_user) (rev_state: string)

datatype label = Label (name: string)

type_synonym datetime = int

record pull_request =
  user :: named_user
  created_at :: datetime
  additions :: int
  deletions :: int
  labels :: "label list"
  get_reviews :: "review list"
  get_review_requests :: "requested list \<times> requested list"

definition timedelta :: "int \<Rightarrow> int" where
  \<comment> \<open>\<open>timedelta(days=d)\<close> in microseconds\<close>
  "timedelta days = days * 86400000000"

section \<open>Weight extractors\<close>

definition extract_complex :: "pull_request \<Rightarrow> int" where
  "extract_complex pull_request = additions pull_request + deletions pull_request"

definition extract_simple :: "pull_request \<Rightarrow> int" where
  "extract_simple pull_request = 1"

definition show_extract_weight :: "string \<Rightarrow> pull_request \<Rightarrow> int" where
  \<comment> \<open>the choice made in \<open>show\<close>: \<open>extract_simple\<close> for \<open>'simple'\<close>, \<open>extract_complex\<close> otherwise\<close>
  "show_extract_weight weight_method =
     (if weight_method = ''simple'' then extract_simple else extract_complex)"

section \<open>Time filter\<close>

text \<open>
  \<open>time_condition\<close> reads the clock with \<open>datetime.now()\<close>; the reading is the parameter
  \<open>now\<close>. The branch chain is the source's: \<open>'all'\<close> returns at once, the three named
  windows choose a delta, anything else returns \<open>False\<close> before the clock is read.
  \<open>show\<close> calls \<open>time_condition\<close> once per pull request; the model of \<open>show\<close> uses one
  reading for all of them.
\<close>

definition time_condition :: "datetime \<Rightarrow> pull_request \<Rightarrow> string \<Rightarrow> bool" where
  "time_condition now pull_request condition =
     (if condition = ''all'' then True
      else case (if condition = ''week'' then Some (timedelta 7)
                 else if condition = ''month'' then Some (timedelta 31)
                 else if condition = ''year'' then Some (timedelta 365)
                 else None) of
             None \<Rightarrow> False
           | Some delta \<Rightarrow> created_at pull_request > now - delta)"

section \<open>Reviewer extractor\<close>

text \<open>
  \<open>extract_reviewers\<close> builds three Python sets, unites them and iterates over the union
  in a dict comprehension. Python iterates a set in an order it does not specify (it
  depends on the hashes), visiting every element once. The model takes that order as the
  parameter \<open>iter\<close>; \<open>set_iteration iter\<close> says that \<open>iter\<close> lists every finite set completely
  and without repetition, and nothing more is assumed of it.

  A dict is an association list in insertion order with distinct keys, since
  \<open>display_user_counter\<close> later iterates over the counters.
\<close>

definition set_iteration :: "('a set \<Rightarrow> 'a list) \<Rightarrow> bool" where
  "set_iteration iter \<longleftrightarrow> (\<forall>S. finite S \<longrightarrow> set (iter S) = S \<and> distinct (iter S))"

definition extract_reviewers ::
  "(named_user set \<Rightarrow> named_user list) \<Rightarrow> pull_request \<Rightarrow> (pull_request \<Rightarrow> int)
     \<Rightarrow> (named_user \<times> int) list" where
  "extract_reviewers iter pull_request extract_weight =
     (let source0 = set [rev_user r. r \<leftarrow> get_reviews pull_request,
                           rev_state r \<in> set [''APPROVED'', ''REQUEST_CHANGES'']];
          source1 = set [r. Inl r \<leftarrow> fst (get_review_requests pull_request)];
          source2 = set [r. Inl r \<leftarrow> snd (get_review_requests pull_request)];
          points = extract_weight pull_request
      in [(u, points). u \<leftarrow> iter ((source0 \<union> source1) \<union> source2)])"

text \<open>
  \<open>reviewer_sources\<close> is the union of the three sets \<open>extract_reviewers\<close> builds, written
  as one set: the authors of the reviews whose state is one of the two literals of the
  source, and the \<open>NamedUser\<close> entries of both components of the review requests.
\<close>

definition reviewer_sources :: "pull_request \<Rightarrow> named_user set" where
  "reviewer_sources pr =
     {rev_user r | r. r \<in> set (get_reviews pr) \<and> (rev_state r = ''APPROVED'' \<or> rev_state r = ''REQUEST_CHANGES'')}
     \<union> {u. Inl u \<in> set (fst (get_review_requests pr)) \<union> set (snd (get_review_requests pr))}"

section \<open>Counters\<close>

text \<open>
  \<open>collections.Counter\<close> is a dict from keys to integers. \<open>self.get(elem, 0)\<close> reads a
  missing key as 0; \<open>self[elem] = v\<close> overwrites an existing entry in place and appends a
  new one (\<open>AList.update\<close>). \<open>Counter.update\<close> with a mapping adds the mapping's counts
  entry by entry when the counter is non-empty, and falls back to \<open>dict.update\<close> when the
  counter is empty.
\<close>

type_synonym counter = "(named_user \<times> int) list"

definition counter_get :: "counter \<Rightarrow> named_user \<Rightarrow> int" where
  "counter_get self elem = (case map_of self elem of None \<Rightarrow> 0 | Some v \<Rightarrow> v)"

definition counter_update :: "counter \<Rightarrow> (named_user \<times> int) list \<Rightarrow> counter" where
  "counter_update self iterable =
     (if self \<noteq> []
      then fold (\<lambda>(elem, count) self. AList.update elem (count + counter_get self elem) self)
             iterable self
      else fold (\<lambda>(elem, count) self. AList.update elem count self) iterable self)"

section \<open>The command show\<close>

text \<open>
  \<open>show\<close> filters the fetched pull requests by creation date, then by labels when the
  label list is non-empty, and updates both counters once per remaining pull request.
\<close>

definition label_filter :: "string list \<Rightarrow> pull_request list \<Rightarrow> pull_request list" where
  "label_filter label_list pull_requests =
     (if label_list \<noteq> []
      then [p. p \<leftarrow> pull_requests, set label_list \<subseteq> set [name l. l \<leftarrow> labels p]]
      else pull_requests)"

definition process_pull ::
  "(named_user set \<Rightarrow> named_user list) \<Rightarrow> (pull_request \<Rightarrow> int) \<Rightarrow> pull_request
     \<Rightarrow> counter \<times> counter \<Rightarrow> counter \<times> counter" where
  \<comment> \<open>the body of the loop over the pull requests\<close>
  "process_pull iter extract_weight pull counters =
     (case counters of (review_counter, creator_counter) \<Rightarrow>
        (counter_update review_counter (extract_reviewers iter pull extract_weight),
         counter_update creator_counter [(user pull, extract_weight pull)]))"

definition aggregate ::
  "(named_user set \<Rightarrow> named_user list) \<Rightarrow> (pull_request \<Rightarrow> int) \<Rightarrow> pull_request list
     \<Rightarrow> counter \<times> counter" where
  \<comment> \<open>the loop, started on the two fresh counters\<close>
  "aggregate iter extract_weight pull_requests =
     fold (process_pull iter extract_weight) pull_requests ([], [])"

definition show_counters ::
  "(named_user set \<Rightarrow> named_user list) \<Rightarrow> datetime \<Rightarrow> pull_request list \<Rightarrow> string list
     \<Rightarrow> string \<Rightarrow> string \<Rightarrow> counter \<times> counter" where
  \<comment> \<open>\<open>show\<close> up to the two calls of \<open>display_user_counter\<close>: the final
      \<open>(review_counter, creator_counter)\<close>\<close>
  "show_counters iter now pulls label_list weight_method younger_than =
     (let pull_requests = [request. request \<leftarrow> pulls, time_condition now request younger_than];
          extract_weight = show_extract_weight weight_method;
          pull_requests = label_filter label_list pull_requests
      in aggregate iter extract_weight pull_requests)"

section \<open>Reporter\<close>

text \<open>
  \<open>click.echo\<close> writes one line. The model records each line by its parts; the percentage
  of a bar is a Python float and its text is not represented. What matters of
  \<open>iteration / float(total)\<close> here is that it raises \<open>ZeroDivisionError\<close> exactly when
  \<open>total\<close> is 0, which is the first thing \<open>print_bar\<close> evaluates. \<open>//\<close> is floor division,
  as \<open>div\<close> on \<open>int\<close>, and a string repeated a negative number of times is empty.

  An exception ends the command; what was written before stays written. The display
  functions return the lines written and the exception raised, if any.
\<close>

datatype error = ZeroDivisionError

datatype echo = Blank | Headline string | Bar string string int

definition print_bar :: "int \<Rightarrow> int \<Rightarrow> string \<Rightarrow> int \<Rightarrow> error + echo" where
  "print_bar iteration total' prefix length' =
     (if total' = 0 then Inl ZeroDivisionError
      else let filled = (length' * iteration) div total';
               bar = replicate (nat filled) (CHR ''#'') @ replicate (nat (length' - filled)) (CHR ''-'')
           in Inr (Bar prefix bar iteration))"

fun print_bars :: "(named_user \<times> int) list \<Rightarrow> int \<Rightarrow> echo list \<times> error option" where
  "print_bars [] total_sum = ([], None)"
| "print_bars ((item, i) # rest) total_sum =
     (case print_bar i total_sum (login item) 44 of
        Inl e \<Rightarrow> ([], Some e)
      | Inr line \<Rightarrow> (case print_bars rest total_sum of (out, r) \<Rightarrow> (line # out, r)))"

definition display_user_counter :: "counter \<Rightarrow> string \<Rightarrow> echo list \<times> error option" where
  "display_user_counter counter headline =
     (let total_sum = sum_list (map snd counter)
      in case print_bars (sort_key (\<lambda>pair. - snd pair) counter) total_sum of
           (out, r) \<Rightarrow> (Blank # Headline headline # out, r))"

definition show_cmd ::
  "(named_user set \<Rightarrow> named_user list) \<Rightarrow> datetime \<Rightarrow> pull_request list \<Rightarrow> string list
     \<Rightarrow> string \<Rightarrow> string \<Rightarrow> echo list \<times> error option" where
  \<comment> \<open>\<open>show\<close> as a whole: the reviewers ranking, then the creators ranking\<close>
  "show_cmd iter now pulls label_list weight_method younger_than =
     (case show_counters iter now pulls label_list weight_method younger_than of
        (review_counter, creator_counter) \<Rightarrow>
          (case display_user_counter review_counter ''Reviewers ranking:'' of
             (out1, Some e) \<Rightarrow> (out1, Some e)
           | (out1, None) \<Rightarrow>
               (case display_user_counter creator_counter ''Creators ranking:'' of
                  (out2, r) \<Rightarrow> (out1 @ out2, r))))"

text \<open>One admissible iteration order, used where a concrete one is needed: by login.\<close>

definition login_order :: "named_user set \<Rightarrow> named_user list" where
  "login_order S = map NamedUser (sorted_list_of_set (login ` S))"

definition reverse_login_order :: "named_user set \<Rightarrow> named_user list" where
  \<comment> \<open>a second admissible order: by login, descending\<close>
  "reverse_login_order S = rev (login_order S)"

section \<open>The reviewer set in the words of the specification\<close>

text \<open>
  The specification describes the keys of the extractor's result as the union of (a) the
  authors of the reviews whose state is approved or changes requested and (b) the
  individually requested reviewers, team entries left out. \<open>reviewers_spec\<close> is that
  description. A review state is the string GitHub reports for the review: \<open>'APPROVED'\<close>
  for an approval and \<open>'CHANGES_REQUESTED'\<close> for a review that requests changes
  (\<open>'REQUEST_CHANGES'\<close> is the name of the event that submits such a review, not a state).
\<close>

definition reviewers_spec :: "pull_request \<Rightarrow> named_user set" where
  "reviewers_spec pr =
     {rev_user r | r. r \<in> set (get_reviews pr) \<and> (rev_state r = ''APPROVED'' \<or> rev_state r = ''CHANGES_REQUESTED'')}
     \<union> {u. Inl u \<in> set (fst (get_review_requests pr)) \<union> set (snd (get_review_requests pr))}"

section \<open>Well-formed counters\<close>

text \<open>A counter with one entry per key and no negative entry.\<close>

definition counter_ok :: "counter \<Rightarrow> bool" where
  "counter_ok c \<longleftrightarrow> distinct (map fst c) \<and> (\<forall>u v. (u, v) \<in> set c \<longrightarrow> 0 \<le> v)"

section \<open>Sample inputs\<close>

text \<open>
  The three pull requests of the end-to-end scenario: the first by \<open>a\<close> with 10 additions
  and 5 deletions, approved by \<open>b\<close>; the second by \<open>b\<close> with an empty diff, approved by
  \<open>a\<close>, changes requested by \<open>c\<close> (a review in state \<open>'CHANGES_REQUESTED'\<close>); the third by
  \<open>a\<close> with an empty diff and no review. Creation times and labels are left open.
\<close>

definition end_to_end_pulls ::
  "named_user \<Rightarrow> named_user \<Rightarrow> named_user \<Rightarrow> datetime \<Rightarrow> datetime \<Rightarrow> datetime
     \<Rightarrow> label list \<Rightarrow> label list \<Rightarrow> label list \<Rightarrow> pull_request list" where
  "end_to_end_pulls a b c t1 t2 t3 l1 l2 l3 =
     [\<lparr>user = a, created_at = t1, additions = 10, deletions = 5, labels = l1,
        get_reviews = [Review b ''APPROVED''], get_review_requests = ([], [])\<rparr>,
      \<lparr>user = b, created_at = t2, additions = 0, deletions = 0, labels = l2,
        get_reviews = [Review a ''APPROVED'', Review c ''CHANGES_REQUESTED''],
        get_review_requests = ([], [])\<rparr>,
      \<lparr>user = a, created_at = t3, additions = 0, deletions = 0, labels = l3,
        get_reviews = [], get_review_requests = ([], [])\<rparr>]"

text \<open>
  A pull request by \<open>A\<close> with three reviews, an approval by \<open>B\<close>, a request for changes
  by \<open>C\<close> and a comment by \<open>D\<close>, and with a pending review request to the user \<open>E\<close> and to
  a team.
\<close>

definition changes_requested_review :: pull_request where
  "changes_requested_review = \<lparr>user = NamedUser ''A'', created_at = 0, additions = 10, deletions = 5,
     labels = [],
     get_reviews = [Review (NamedUser ''B'') ''APPROVED'', Review (NamedUser ''C'') ''CHANGES_REQUESTED'',
                    Review (NamedUser ''D'') ''COMMENTED''],
     get_review_requests = ([Inl (NamedUser ''E''), Inr (Team ''core'')], [])\<rparr>"

text \<open>
  Two pull requests processed one after the other: the first by \<open>A\<close>, 15 changed lines,
  approved by \<open>B\<close>; the second by \<open>B\<close>, an empty diff, approved by \<open>A\<close> and by \<open>B\<close>, with
  \<open>C\<close> requested as reviewer.
\<close>

definition one_approval :: pull_request where
  "one_approval = \<lparr>user = NamedUser ''A'', created_at = 0, additions = 10, deletions = 5,
     labels = [], get_reviews = [Review (NamedUser ''B'') ''APPROVED''],
     get_review_requests = ([], [])\<rparr>"

definition empty_diff :: pull_request where
  "empty_diff = \<lparr>user = NamedUser ''B'', created_at = 0, additions = 0, deletions = 0,
     labels = [], get_reviews = [Review (NamedUser ''A'') ''APPROVED'', Review (NamedUser ''B'') ''APPROVED''],
     get_review_requests = ([Inl (NamedUser ''C'')], [])\<rparr>"

text \<open>A pull request that changes no line and has no reviewer.\<close>

definition untouched_diff :: pull_request where
  "untouched_diff = \<lparr>user = NamedUser ''A'', created_at = 0, additions = 0, deletions = 0,
     labels = [], get_reviews = [], get_review_requests = ([], [])\<rparr>"

section \<open>Auxiliary facts\<close>

subsection \<open>Iteration orders\<close>

lemma set_iteration_login_order: "set_iteration login_order"
  unfolding set_iteration_def login_order_def
  by (auto simp: distinct_map inj_on_def image_image)

lemma set_iteration_reverse_login_order: "set_iteration reverse_login_order"
  using set_iteration_login_order
  by (simp add: set_iteration_def reverse_login_order_def)

lemma set_iteration_empty: "set_iteration iter \<Longrightarrow> iter {} = []"
  unfolding set_iteration_def by (metis finite.emptyI set_empty)

lemma set_iteration_singleton:
  assumes "set_iteration iter"
  shows "iter {x} = [x]"
proof -
  have s: "set (iter {x}) = {x}" and d: "distinct (iter {x})"
    using assms unfolding set_iteration_def by simp_all
  show ?thesis
  proof (cases "iter {x}")
    case Nil
    with s show ?thesis by simp
  next
    case (Cons y ys)
    with s have y: "y = x" and sub: "set ys \<subseteq> {x}" by auto
    from d Cons y have "x \<notin> set ys" by simp
    with sub have "ys = []" by (cases ys) auto
    with Cons y show ?thesis by simp
  qed
qed

subsection \<open>List comprehensions\<close>

lemma set_requested_users: "set [r. Inl r \<leftarrow> xs] = {u. Inl u \<in> set xs}"
  by (induction xs) (auto split: sum.splits)

lemma set_filtered_map: "set [f r. r \<leftarrow> xs, P r] = {f r | r. r \<in> set xs \<and> P r}"
  by (induction xs) auto

lemma comprehension_filter: "[x. x \<leftarrow> xs, P x] = filter P xs"
  by (induction xs) simp_all

lemma filter_all: "(\<And>x. x \<in> set xs \<Longrightarrow> P x) \<Longrightarrow> filter P xs = xs"
  by (induction xs) simp_all

lemma label_filter_eq:
  "label_filter ls prs = filter (\<lambda>p. set ls \<subseteq> name ` set (labels p)) prs"
  by (simp add: label_filter_def comprehension_filter)

subsection \<open>The extractor against the specification's reviewer set\<close>

lemma reviewer_sources_lists:
  "reviewer_sources pr = set [rev_user r. r \<leftarrow> get_reviews pr, rev_state r = ''APPROVED'' \<or> rev_state r = ''REQUEST_CHANGES'']
       \<union> (set [r. Inl r \<leftarrow> fst (get_review_requests pr)]
       \<union> set [r. Inl r \<leftarrow> snd (get_review_requests pr)])"
  unfolding reviewer_sources_def set_requested_users set_filtered_map by blast

lemma reviewers_spec_lists:
  "reviewers_spec pr = set [rev_user r. r \<leftarrow> get_reviews pr, rev_state r = ''APPROVED'' \<or> rev_state r = ''CHANGES_REQUESTED'']
       \<union> (set [r. Inl r \<leftarrow> fst (get_review_requests pr)]
       \<union> set [r. Inl r \<leftarrow> snd (get_review_requests pr)])"
  unfolding reviewers_spec_def set_requested_users set_filtered_map by blast

lemma finite_reviewer_sources: "finite (reviewer_sources pr)"
proof -
  have "reviewer_sources pr = set [rev_user r. r \<leftarrow> get_reviews pr, rev_state r = ''APPROVED'' \<or> rev_state r = ''REQUEST_CHANGES'']
       \<union> (set [r. Inl r \<leftarrow> fst (get_review_requests pr)]
       \<union> set [r. Inl r \<leftarrow> snd (get_review_requests pr)])"
    unfolding reviewer_sources_def set_requested_users set_filtered_map by blast
  then show ?thesis
    by (simp only: finite_Un List.finite_set simp_thms)
qed

lemma extract_reviewers_eq:
  "extract_reviewers iter pr w = map (\<lambda>u. (u, w pr)) (iter (reviewer_sources pr))"
proof -
  have m: "\<And>s. (s \<in> set [''APPROVED'', ''REQUEST_CHANGES'']) = (s = ''APPROVED'' \<or> s = ''REQUEST_CHANGES'')"
    by (simp only: list.set insert_iff empty_iff simp_thms)
  have "set [rev_user r. r \<leftarrow> get_reviews pr, rev_state r \<in> set [''APPROVED'', ''REQUEST_CHANGES'']]
       \<union> set [r. Inl r \<leftarrow> fst (get_review_requests pr)]
       \<union> set [r. Inl r \<leftarrow> snd (get_review_requests pr)] = reviewer_sources pr"
    unfolding reviewer_sources_def set_requested_users set_filtered_map m by blast
  then show ?thesis
    unfolding extract_reviewers_def Let_def by (simp only: )
qed

lemma extract_reviewers_keys:
  assumes "set_iteration iter"
  shows "set (map fst (extract_reviewers iter pr w)) = reviewer_sources pr"
    and "distinct (map fst (extract_reviewers iter pr w))"
proof -
  have it: "set (iter (reviewer_sources pr)) = reviewer_sources pr" "distinct (iter (reviewer_sources pr))"
    using assms finite_reviewer_sources [of pr] unfolding set_iteration_def by blast+
  have keys: "map fst (extract_reviewers iter pr w) = iter (reviewer_sources pr)"
    unfolding extract_reviewers_eq by (simp add: comp_def)
  show "set (map fst (extract_reviewers iter pr w)) = reviewer_sources pr"
    unfolding keys by (rule it(1))
  show "distinct (map fst (extract_reviewers iter pr w))"
    unfolding keys by (rule it(2))
qed

lemma map_of_extract_reviewers:
  assumes "set_iteration iter"
  shows "map_of (extract_reviewers iter pr w) u = (if u \<in> reviewer_sources pr then Some (w pr) else None)"
proof -
  have it: "set (iter (reviewer_sources pr)) = reviewer_sources pr"
    using assms finite_reviewer_sources [of pr] unfolding set_iteration_def by blast
  have "map_of (map (\<lambda>u. (u, w pr)) xs) u = (if u \<in> set xs then Some (w pr) else None)" for xs
    by (induction xs) simp_all
  from this [of "iter (reviewer_sources pr)"] show ?thesis
    unfolding extract_reviewers_eq it .
qed

subsection \<open>Updating a counter\<close>

lemma map_of_update_other: "k \<noteq> k' \<Longrightarrow> map_of (AList.update k' v c) k = map_of c k"
  by (simp add: update_conv')

lemma counter_get_update_other: "k \<noteq> k' \<Longrightarrow> counter_get (AList.update k' v c) k = counter_get c k"
  by (simp add: counter_get_def update_conv')

lemma fold_add_map_of:
  "distinct (map fst d) \<Longrightarrow>
   map_of (fold (\<lambda>(elem, count) self. AList.update elem (count + counter_get self elem) self) d c) k
     = (case map_of d k of None \<Rightarrow> map_of c k | Some v \<Rightarrow> Some (v + counter_get c k))"
proof (induction d arbitrary: c)
  case Nil
  then show ?case by simp
next
  case (Cons e d)
  obtain k' v' where e: "e = (k', v')" by (cases e)
  from Cons.prems have d: "distinct (map fst d)" and nk: "k' \<notin> fst ` set d"
    by (auto simp: e)
  show ?case
  proof (cases "k = k'")
    case True
    with nk have "map_of d k = None" by (simp add: map_of_eq_None_iff)
    then show ?thesis
      using Cons.IH [OF d] by (simp add: e True update_conv')
  next
    case False
    then show ?thesis
      using Cons.IH [OF d, of "AList.update k' (v' + counter_get c k') c"]
      by (simp add: e map_of_update_other counter_get_update_other cong: option.case_cong)
  qed
qed

lemma fold_set_map_of:
  "distinct (map fst d) \<Longrightarrow>
   map_of (fold (\<lambda>(elem, count) self. AList.update elem count self) d c) k
     = (case map_of d k of None \<Rightarrow> map_of c k | Some v \<Rightarrow> Some v)"
proof (induction d arbitrary: c)
  case Nil
  then show ?case by simp
next
  case (Cons e d)
  obtain k' v' where e: "e = (k', v')" by (cases e)
  from Cons.prems have d: "distinct (map fst d)" and nk: "k' \<notin> fst ` set d"
    by (auto simp: e)
  show ?case
  proof (cases "k = k'")
    case True
    with nk have "map_of d k = None" by (simp add: map_of_eq_None_iff)
    then show ?thesis
      using Cons.IH [OF d] by (simp add: e True update_conv')
  next
    case False
    then show ?thesis
      using Cons.IH [OF d, of "AList.update k' v' c"]
      by (simp add: e map_of_update_other cong: option.case_cong)
  qed
qed

lemma map_of_counter_update:
  assumes "distinct (map fst d)"
  shows "map_of (counter_update c d) k
     = (case map_of d k of None \<Rightarrow> map_of c k | Some v \<Rightarrow> Some (v + counter_get c k))"
proof (cases "c = []")
  case True
  then show ?thesis
    using fold_set_map_of [OF assms, of "[]" k]
    by (simp add: counter_update_def counter_get_def split: option.splits)
next
  case False
  then show ?thesis
    using fold_add_map_of [OF assms, of c k] by (simp add: counter_update_def)
qed

lemma distinct_fold_update:
  "distinct (map fst c) \<Longrightarrow> distinct (map fst (fold (\<lambda>(elem, count) self. AList.update elem (f elem count self) self) d c))"
  by (induction d arbitrary: c) (auto simp: distinct_update)

lemma distinct_counter_update:
  assumes "distinct (map fst c)"
  shows "distinct (map fst (counter_update c d))"
proof (cases "c = []")
  case True
  then show ?thesis
    using distinct_fold_update [of "[]" "\<lambda>elem count self. count" d]
    by (simp add: counter_update_def)
next
  case False
  then show ?thesis
    using distinct_fold_update [OF assms, of "\<lambda>elem count self. count + counter_get self elem" d]
    by (simp add: counter_update_def)
qed

lemma counter_get_counter_update:
  assumes "distinct (map fst d)"
  shows "counter_get (counter_update c d) k = counter_get d k + counter_get c k"
  unfolding counter_get_def map_of_counter_update [OF assms]
  by (cases "map_of d k"; cases "map_of c k"; simp)

lemma keys_counter_update:
  assumes "distinct (map fst d)"
  shows "fst ` set (counter_update c d) = fst ` set c \<union> fst ` set d"
proof -
  have "\<And>k. (map_of (counter_update c d) k = None) = (map_of c k = None \<and> map_of d k = None)"
    unfolding map_of_counter_update [OF assms]
    by (simp split: option.splits)
  then have "\<And>k. k \<notin> fst ` set (counter_update c d) \<longleftrightarrow> k \<notin> fst ` set c \<and> k \<notin> fst ` set d"
    unfolding map_of_eq_None_iff .
  then show ?thesis by blast
qed

subsection \<open>The loop over the pull requests\<close>

lemma distinct_singleton_keys: "distinct (map fst [(k, v)])"
  by simp

lemma map_of_process_pull_fst:
  assumes "set_iteration iter"
  shows "map_of (fst (process_pull iter w p (rc, cc))) u
           = (if u \<in> reviewer_sources p then Some (w p + counter_get rc u) else map_of rc u)"
  using map_of_counter_update [OF extract_reviewers_keys(2) [OF assms, of p w], of rc u]
  by (simp add: process_pull_def map_of_extract_reviewers [OF assms])

lemma map_of_process_pull_fst':
  assumes "set_iteration iter"
  shows "map_of (fst (process_pull iter w p s)) u
           = (if u \<in> reviewer_sources p then Some (w p + counter_get (fst s) u) else map_of (fst s) u)"
  using map_of_process_pull_fst [OF assms, of w p "fst s" "snd s" u] by simp

lemma counter_get_process_pull_fst:
  assumes "set_iteration iter"
  shows "counter_get (fst (process_pull iter w p s)) u
           = (if u \<in> reviewer_sources p then w p + counter_get (fst s) u else counter_get (fst s) u)"
  unfolding counter_get_def [of "fst (process_pull iter w p s)"] map_of_process_pull_fst' [OF assms]
  by (simp add: counter_get_def)

lemma map_of_process_pull_snd:
  "map_of (snd (process_pull iter w p (rc, cc))) u
           = (if u = user p then Some (w p + counter_get cc u) else map_of cc u)"
  using map_of_counter_update [OF distinct_singleton_keys, of cc "user p" "w p" u]
  by (simp add: process_pull_def)

lemma snd_process_pull:
  "snd (process_pull iter w p s) = counter_update (snd s) [(user p, w p)]"
  by (simp add: process_pull_def split: prod.splits)

lemma counter_get_cong: "map_of c1 = map_of c2 \<Longrightarrow> counter_get c1 = counter_get c2"
  by (simp add: counter_get_def fun_eq_iff)

lemma fold_process_pull_order:
  assumes "set_iteration it1" and "set_iteration it2"
  shows "map_of (fst s1) = map_of (fst s2) \<Longrightarrow> map_of (snd s1) = map_of (snd s2) \<Longrightarrow>
     map_of (fst (fold (process_pull it1 w) ps s1)) = map_of (fst (fold (process_pull it2 w) ps s2))
     \<and> map_of (snd (fold (process_pull it1 w) ps s1)) = map_of (snd (fold (process_pull it2 w) ps s2))"
proof (induction ps arbitrary: s1 s2)
  case Nil
  then show ?case by simp
next
  case (Cons p ps)
  obtain rc1 cc1 where s1: "s1 = (rc1, cc1)" by (cases s1)
  obtain rc2 cc2 where s2: "s2 = (rc2, cc2)" by (cases s2)
  from Cons.prems have m: "map_of rc1 = map_of rc2" "map_of cc1 = map_of cc2"
    by (simp_all add: s1 s2)
  have g: "counter_get rc1 = counter_get rc2" "counter_get cc1 = counter_get cc2"
    by (rule counter_get_cong [OF m(1)], rule counter_get_cong [OF m(2)])
  have a: "map_of (fst (process_pull it1 w p s1)) = map_of (fst (process_pull it2 w p s2))"
    unfolding s1 s2
    by (rule ext) (simp add: map_of_process_pull_fst assms g m)
  have b: "map_of (snd (process_pull it1 w p s1)) = map_of (snd (process_pull it2 w p s2))"
    unfolding s1 s2
    by (rule ext) (simp add: map_of_process_pull_snd g m)
  show ?case
    using Cons.IH [OF a b] by simp
qed

lemma snd_fold_process_pull:
  "snd (fold (process_pull it1 w) ps (rc1, cc)) = snd (fold (process_pull it2 w) ps (rc2, cc))"
proof (induction ps arbitrary: rc1 rc2 cc)
  case Nil
  then show ?case by simp
next
  case (Cons p ps)
  show ?case
    using Cons.IH [of "counter_update rc1 (extract_reviewers it1 p w)"
        "counter_update cc [(user p, w p)]" "counter_update rc2 (extract_reviewers it2 p w)"]
    by (simp add: process_pull_def)
qed

lemma distinct_fold_process_pull:
  "distinct (map fst (fst s)) \<Longrightarrow> distinct (map fst (snd s)) \<Longrightarrow>
   distinct (map fst (fst (fold (process_pull iter w) ps s)))
   \<and> distinct (map fst (snd (fold (process_pull iter w) ps s)))"
proof (induction ps arbitrary: s)
  case Nil
  then show ?case by simp
next
  case (Cons p ps)
  have "distinct (map fst (fst (process_pull iter w p s)))"
    "distinct (map fst (snd (process_pull iter w p s)))"
    using Cons.prems by (cases s; simp add: process_pull_def distinct_counter_update)+
  from Cons.IH [OF this] show ?case by simp
qed

lemma counter_ok_map_of:
  "counter_ok c \<longleftrightarrow> distinct (map fst c) \<and> (\<forall>u v. map_of c u = Some v \<longrightarrow> 0 \<le> v)"
  unfolding counter_ok_def by (rule conj_cong [OF refl]) simp

lemma counter_ok_get: "counter_ok c \<Longrightarrow> 0 \<le> counter_get c u"
  unfolding counter_ok_map_of counter_get_def by (cases "map_of c u") auto

lemma counter_ok_process_pull:
  assumes "set_iteration iter" and "0 \<le> w p" and "counter_ok rc" and "counter_ok cc"
  shows "counter_ok (fst (process_pull iter w p (rc, cc)))"
    and "counter_ok (snd (process_pull iter w p (rc, cc)))"
proof -
  have d1: "distinct (map fst (fst (process_pull iter w p (rc, cc))))"
    using assms(3) by (simp add: process_pull_def distinct_counter_update counter_ok_def)
  have d2: "distinct (map fst (snd (process_pull iter w p (rc, cc))))"
    using assms(4) by (simp add: process_pull_def distinct_counter_update counter_ok_def)
  have n1: "0 \<le> v" if h: "map_of (fst (process_pull iter w p (rc, cc))) u = Some v" for u v
  proof (cases "u \<in> reviewer_sources p")
    case True
    with h have "v = w p + counter_get rc u"
      unfolding map_of_process_pull_fst [OF assms(1)] by simp
    then show ?thesis using assms(2) counter_ok_get [OF assms(3), of u] by simp
  next
    case False
    with h have "map_of rc u = Some v"
      unfolding map_of_process_pull_fst [OF assms(1)] by simp
    then show ?thesis using assms(3) unfolding counter_ok_map_of by blast
  qed
  have n2: "0 \<le> v" if h: "map_of (snd (process_pull iter w p (rc, cc))) u = Some v" for u v
  proof (cases "u = user p")
    case True
    with h have "v = w p + counter_get cc u"
      unfolding map_of_process_pull_snd by simp
    then show ?thesis using assms(2) counter_ok_get [OF assms(4), of u] by simp
  next
    case False
    with h have "map_of cc u = Some v"
      unfolding map_of_process_pull_snd by simp
    then show ?thesis using assms(4) unfolding counter_ok_map_of by blast
  qed
  show "counter_ok (fst (process_pull iter w p (rc, cc)))"
    unfolding counter_ok_map_of using d1 n1 by blast
  show "counter_ok (snd (process_pull iter w p (rc, cc)))"
    unfolding counter_ok_map_of using d2 n2 by blast
qed

lemma counter_ok_fold:
  assumes "set_iteration iter"
  shows "(\<And>p. p \<in> set ps \<Longrightarrow> 0 \<le> w p) \<Longrightarrow> counter_ok (fst s) \<Longrightarrow> counter_ok (snd s) \<Longrightarrow>
     counter_ok (fst (fold (process_pull iter w) ps s)) \<and> counter_ok (snd (fold (process_pull iter w) ps s))"
proof (induction ps arbitrary: s)
  case Nil
  then show ?case by simp
next
  case (Cons p ps)
  obtain rc cc where s: "s = (rc, cc)" by (cases s)
  have w: "0 \<le> w p" using Cons.prems(1) by simp
  have ok: "counter_ok rc" "counter_ok cc" using Cons.prems(2,3) by (simp_all add: s)
  show ?case
    using Cons.IH [of "process_pull iter w p (rc, cc)"]
      counter_ok_process_pull [of iter w p rc cc, OF assms w ok] Cons.prems(1)
    by (simp add: s)
qed

lemma process_pull_grows:
  assumes "set_iteration iter" and "0 \<le> w p"
  shows "counter_get rc u \<le> counter_get (fst (process_pull iter w p (rc, cc))) u"
    and "counter_get cc u \<le> counter_get (snd (process_pull iter w p (rc, cc))) u"
    and "fst ` set rc \<subseteq> fst ` set (fst (process_pull iter w p (rc, cc)))"
    and "fst ` set cc \<subseteq> fst ` set (snd (process_pull iter w p (rc, cc)))"
proof -
  show "counter_get rc u \<le> counter_get (fst (process_pull iter w p (rc, cc))) u"
    using assms(2)
    by (simp add: process_pull_def counter_get_counter_update [OF extract_reviewers_keys(2) [OF assms(1)]]
        counter_get_def [of "extract_reviewers iter p w"] map_of_extract_reviewers [OF assms(1)])
  show "counter_get cc u \<le> counter_get (snd (process_pull iter w p (rc, cc))) u"
    using assms(2)
    by (simp add: process_pull_def counter_get_counter_update [OF distinct_singleton_keys]
        counter_get_def [of "[(user p, w p)]"])
  show "fst ` set rc \<subseteq> fst ` set (fst (process_pull iter w p (rc, cc)))"
    by (auto simp: process_pull_def keys_counter_update [OF extract_reviewers_keys(2) [OF assms(1)]])
  show "fst ` set cc \<subseteq> fst ` set (snd (process_pull iter w p (rc, cc)))"
    by (auto simp: process_pull_def keys_counter_update [OF distinct_singleton_keys])
qed

lemma show_extract_weight_nonneg:
  "0 \<le> additions p \<Longrightarrow> 0 \<le> deletions p \<Longrightarrow> 0 \<le> show_extract_weight wm p"
  by (simp add: show_extract_weight_def extract_simple_def extract_complex_def)

subsection \<open>The reporter\<close>

lemma print_bars_raises_iff:
  "snd (print_bars xs total_sum) = Some ZeroDivisionError \<longleftrightarrow> xs \<noteq> [] \<and> total_sum = 0"
proof (induction xs)
  case Nil
  then show ?case by simp
next
  case (Cons x xs)
  obtain item i where x: "x = (item, i)" by (cases x)
  show ?case
    using Cons.IH
    by (cases "total_sum = 0"; cases "print_bars xs total_sum") (simp_all add: x print_bar_def Let_def)
qed

lemma display_user_counter_raises_iff:
  "snd (display_user_counter counter headline) = Some ZeroDivisionError
     \<longleftrightarrow> counter \<noteq> [] \<and> sum_list (map snd counter) = 0"
proof -
  have "sort_key (\<lambda>pair. - snd pair) counter \<noteq> [] \<longleftrightarrow> counter \<noteq> []"
    by (metis length_sort length_0_conv)
  then show ?thesis
    using print_bars_raises_iff [of "sort_key (\<lambda>pair. - snd pair) counter" "sum_list (map snd counter)"]
    by (cases "print_bars (sort_key (\<lambda>pair. - snd pair) counter) (sum_list (map snd counter))")
       (simp add: display_user_counter_def Let_def)
qed

lemma display_user_counter_empty:
  "display_user_counter [] headline = ([Blank, Headline headline], None)"
  by (simp add: display_user_counter_def)

section \<open>Properties of the weight extractors\<close>

text \<open>
  C6. For every pull request, the weight extractor chosen for \<open>'simple'\<close> returns the
  constant 1 whatever the pull request holds, and the one chosen for \<open>'changes'\<close> returns
  additions plus deletions, which is 0 when both are 0.
\<close>

theorem weight_extractor_modes:
  "show_extract_weight ''simple'' pr = 1
   \<and> extract_simple pr = 1
   \<and> show_extract_weight ''changes'' pr = additions pr + deletions pr
   \<and> extract_complex pr = additions pr + deletions pr
   \<and> show_extract_weight ''changes'' (pr\<lparr>additions := 0, deletions := 0\<rparr>) = 0"
  by (simp add: show_extract_weight_def extract_simple_def extract_complex_def)

section \<open>Properties of the time filter\<close>

text \<open>
  C4. For every pull request the filter accepts the window \<open>'all'\<close>; for \<open>'week'\<close>,
  \<open>'month'\<close> and \<open>'year'\<close> it accepts exactly when the creation time is strictly later than
  now minus 7, 31 and 365 days. A pull request created exactly at now minus the delta is
  rejected, and one created 6 days 23 hours ago is accepted for \<open>'week'\<close>.
\<close>

theorem time_condition_windows:
  "time_condition now pr ''all''
   \<and> time_condition now pr ''week'' = (created_at pr > now - 7 * 86400000000)
   \<and> time_condition now pr ''month'' = (created_at pr > now - 31 * 86400000000)
   \<and> time_condition now pr ''year'' = (created_at pr > now - 365 * 86400000000)
   \<and> time_condition now (pr\<lparr>created_at := now - timedelta 7\<rparr>) ''week'' = False
   \<and> time_condition now (pr\<lparr>created_at := now - timedelta 31\<rparr>) ''month'' = False
   \<and> time_condition now (pr\<lparr>created_at := now - timedelta 365\<rparr>) ''year'' = False
   \<and> time_condition now (pr\<lparr>created_at := now - (6 * 86400000000 + 23 * 3600000000)\<rparr>) ''week''"
  by (simp add: time_condition_def timedelta_def)

text \<open>
  C5. For every pull request and every window string other than \<open>'week'\<close>, \<open>'month'\<close>,
  \<open>'year'\<close> and \<open>'all'\<close>, the filter returns \<open>False\<close>; the function has no raising path, so
  such a window silently rejects every pull request.
\<close>

theorem time_condition_unrecognized:
  "condition \<notin> {''week'', ''month'', ''year'', ''all''} \<Longrightarrow>
     time_condition now pr condition = False"
  by (simp add: time_condition_def)

theorem time_condition_unrecognized_witness:
  "''day'' \<notin> {''week'', ''month'', ''year'', ''all''}
   \<and> time_condition 0 \<lparr>user = NamedUser ''A'', created_at = 0, additions = 1, deletions = 2,
         labels = [], get_reviews = [], get_review_requests = ([], [])\<rparr> ''day'' = False"
  using time_condition_unrecognized [of "''day''" 0
      "\<lparr>user = NamedUser ''A'', created_at = 0, additions = 1, deletions = 2,
         labels = [], get_reviews = [], get_review_requests = ([], [])\<rparr>"]
  by simp

text \<open>
  C10. With the clock reading fixed, the windows are nested: a pull request accepted for
  \<open>'week'\<close> is accepted for \<open>'month'\<close>, one accepted for \<open>'month'\<close> is accepted for
  \<open>'year'\<close>, and one accepted for \<open>'year'\<close> is accepted for \<open>'all'\<close>.
\<close>

theorem time_condition_nested:
  "(time_condition now pr ''week'' \<longrightarrow> time_condition now pr ''month'')
   \<and> (time_condition now pr ''month'' \<longrightarrow> time_condition now pr ''year'')
   \<and> (time_condition now pr ''year'' \<longrightarrow> time_condition now pr ''all'')"
  by (simp add: time_condition_def timedelta_def)

theorem time_condition_nested_witness:
  "time_condition 1000 \<lparr>user = NamedUser ''A'', created_at = 999, additions = 1, deletions = 2,
         labels = [], get_reviews = [], get_review_requests = ([], [])\<rparr> ''week''
   \<and> time_condition 1000 \<lparr>user = NamedUser ''A'', created_at = 999, additions = 1, deletions = 2,
         labels = [], get_reviews = [], get_review_requests = ([], [])\<rparr> ''month''
   \<and> time_condition 1000 \<lparr>user = NamedUser ''A'', created_at = 999, additions = 1, deletions = 2,
         labels = [], get_reviews = [], get_review_requests = ([], [])\<rparr> ''year''
   \<and> time_condition 1000 \<lparr>user = NamedUser ''A'', created_at = 999, additions = 1, deletions = 2,
         labels = [], get_reviews = [], get_review_requests = ([], [])\<rparr> ''all''"
proof -
  let ?pr = "\<lparr>user = NamedUser ''A'', created_at = 999, additions = 1, deletions = 2,
         labels = [], get_reviews = [], get_review_requests = ([], [])\<rparr>"
  have week: "time_condition 1000 ?pr ''week''"
    by (simp add: time_condition_def timedelta_def)
  from time_condition_nested [of 1000 ?pr] week show ?thesis
    by blast
qed

section \<open>Properties of the reporter\<close>

text \<open>
  C1. Rendering a counter whose values sum to 0 should produce output without a division
  error. The source does not: \<open>print_bar\<close> divides by the total unguarded, so a counter
  that has an entry and sums to 0 ends in \<open>ZeroDivisionError\<close>. One pull request with an
  empty diff and no reviewer, under the default options of \<open>show\<close>, gives the creator
  counter \<open>{A: 0}\<close>; the reviewers ranking (an empty counter) is written, the headline of
  the creators ranking is written, and the first bar raises.
\<close>

theorem display_user_counter_zero_total_raises:
  "sum_list (map snd [(NamedUser ''A'', 0::int)]) = 0
   \<and> display_user_counter [(NamedUser ''A'', 0)] ''Creators ranking:''
        = ([Blank, Headline ''Creators ranking:''], Some ZeroDivisionError)
   \<and> show_counters login_order 0 [untouched_diff] [] ''changes'' ''month''
        = ([], [(NamedUser ''A'', 0)])
   \<and> show_cmd login_order 0 [untouched_diff] [] ''changes'' ''month''
        = ([Blank, Headline ''Reviewers ranking:'', Blank, Headline ''Creators ranking:''],
           Some ZeroDivisionError)"
  by code_simp

section \<open>Properties of the reviewer extractor\<close>

text \<open>
  C2. The keys of the extractor's result should be exactly the specification's reviewer
  set: the authors of the reviews in state approved or changes requested, together with
  the individually requested reviewers, teams left out. The source does not include the
  authors of reviews that request changes: it compares the state with \<open>'REQUEST_CHANGES'\<close>,
  while such a review is in state \<open>'CHANGES_REQUESTED'\<close>. On the sample pull request, whose
  reviewers by the specification are \<open>B\<close>, \<open>C\<close> and \<open>E\<close>, the result has, for every
  iteration order, the two keys \<open>B\<close> and \<open>E\<close>, one entry each with the weight of the pull
  request, and no entry for \<open>C\<close>, who requested changes.
\<close>

theorem extract_reviewers_drops_changes_requested:
  assumes "set_iteration iter"
  shows "reviewers_spec changes_requested_review = {NamedUser ''B'', NamedUser ''C'', NamedUser ''E''}
       \<and> set (map fst (extract_reviewers iter changes_requested_review w))
            = {NamedUser ''B'', NamedUser ''E''}
       \<and> distinct (map fst (extract_reviewers iter changes_requested_review w))
       \<and> map_of (extract_reviewers iter changes_requested_review w) (NamedUser ''B'')
            = Some (w changes_requested_review)
       \<and> map_of (extract_reviewers iter changes_requested_review w) (NamedUser ''E'')
            = Some (w changes_requested_review)
       \<and> map_of (extract_reviewers iter changes_requested_review w) (NamedUser ''C'') = None
       \<and> set (map fst (extract_reviewers iter changes_requested_review w))
            \<noteq> reviewers_spec changes_requested_review"
proof -
  have "reviewers_spec changes_requested_review
          = {NamedUser ''E'', NamedUser ''B'', NamedUser ''C''}"
    by (simp add: reviewers_spec_lists changes_requested_review_def)
  also have "\<dots> = {NamedUser ''B'', NamedUser ''C'', NamedUser ''E''}"
    by blast
  finally have sp: "reviewers_spec changes_requested_review
              = {NamedUser ''B'', NamedUser ''C'', NamedUser ''E''}" .
  have "reviewer_sources changes_requested_review = {NamedUser ''E'', NamedUser ''B''}"
    by (simp add: reviewer_sources_lists changes_requested_review_def)
  also have "\<dots> = {NamedUser ''B'', NamedUser ''E''}"
    by blast
  finally have so: "reviewer_sources changes_requested_review
              = {NamedUser ''B'', NamedUser ''E''}" .
  have out: "NamedUser ''C'' \<notin> {NamedUser ''B'', NamedUser ''E''}"
    by simp
  have ne: "{NamedUser ''B'', NamedUser ''E''} \<noteq> {NamedUser ''B'', NamedUser ''C'', NamedUser ''E''}"
  proof
    assume eq: "{NamedUser ''B'', NamedUser ''E''} = {NamedUser ''B'', NamedUser ''C'', NamedUser ''E''}"
    have "NamedUser ''C'' \<in> {NamedUser ''B'', NamedUser ''C'', NamedUser ''E''}" by simp
    then have "NamedUser ''C'' \<in> {NamedUser ''B'', NamedUser ''E''}" unfolding eq [symmetric] .
    with out show False by contradiction
  qed
  have keys: "set (map fst (extract_reviewers iter changes_requested_review w))
                = {NamedUser ''B'', NamedUser ''E''}"
    using extract_reviewers_keys(1) [OF assms, of changes_requested_review w] unfolding so .
  have dist: "distinct (map fst (extract_reviewers iter changes_requested_review w))"
    by (rule extract_reviewers_keys(2) [OF assms])
  have mB: "map_of (extract_reviewers iter changes_requested_review w) (NamedUser ''B'')
              = Some (w changes_requested_review)"
    unfolding map_of_extract_reviewers [OF assms] so by simp
  have mE: "map_of (extract_reviewers iter changes_requested_review w) (NamedUser ''E'')
              = Some (w changes_requested_review)"
    unfolding map_of_extract_reviewers [OF assms] so by simp
  have mC: "map_of (extract_reviewers iter changes_requested_review w) (NamedUser ''C'') = None"
    unfolding map_of_extract_reviewers [OF assms] so using out by simp
  have differ: "set (map fst (extract_reviewers iter changes_requested_review w))
                  \<noteq> reviewers_spec changes_requested_review"
    unfolding keys sp by (rule ne)
  from sp keys dist mB mE mC differ show ?thesis
    by (intro conjI)
qed

theorem extract_reviewers_drops_changes_requested_witness:
  "set_iteration login_order
   \<and> extract_reviewers login_order changes_requested_review extract_complex
        = [(NamedUser ''B'', 15), (NamedUser ''E'', 15)]
   \<and> reviewers_spec changes_requested_review = {NamedUser ''B'', NamedUser ''C'', NamedUser ''E''}
   \<and> map_of (extract_reviewers login_order changes_requested_review extract_complex) (NamedUser ''C'')
        = None"
proof -
  have e: "extract_reviewers login_order changes_requested_review extract_complex
        = [(NamedUser ''B'', 15), (NamedUser ''E'', 15)]"
    by code_simp
  from extract_reviewers_drops_changes_requested [OF set_iteration_login_order, of extract_complex]
  show ?thesis
    using set_iteration_login_order e by blast
qed

section \<open>Properties of the aggregation\<close>

text \<open>
  C3. End to end with the weight method \<open>'changes'\<close>, the three pull requests of the
  scenario should give the reviewer counter \<open>{b: 15, a: 0, c: 0}\<close> and the creator counter
  \<open>{a: 15, b: 0}\<close>. The source gives the creator counter, but its reviewer counter is
  \<open>{b: 15, a: 0}\<close>: whenever the three pull requests pass the time filter and the label
  filter and \<open>a\<close>, \<open>b\<close>, \<open>c\<close> are three different users, \<open>c\<close>, whose review is in state
  \<open>'CHANGES_REQUESTED'\<close>, has no entry.
\<close>

theorem end_to_end_changes_requested_missing:
  assumes "set_iteration iter" and "distinct [a, b, c]"
    and "\<forall>p \<in> set (end_to_end_pulls a b c t1 t2 t3 l1 l2 l3).
           time_condition now p younger_than \<and> set label_list \<subseteq> name ` set (labels p)"
  shows "fst (show_counters iter now (end_to_end_pulls a b c t1 t2 t3 l1 l2 l3)
                        label_list ''changes'' younger_than) = [(b, 15), (a, 0)]
       \<and> map_of (fst (show_counters iter now (end_to_end_pulls a b c t1 t2 t3 l1 l2 l3)
                        label_list ''changes'' younger_than)) c = None
       \<and> map_of (fst (show_counters iter now (end_to_end_pulls a b c t1 t2 t3 l1 l2 l3)
                        label_list ''changes'' younger_than)) \<noteq> [b \<mapsto> 15, a \<mapsto> 0, c \<mapsto> 0]
       \<and> snd (show_counters iter now (end_to_end_pulls a b c t1 t2 t3 l1 l2 l3)
                        label_list ''changes'' younger_than) = [(a, 15), (b, 0)]"
proof -
  let ?ps = "end_to_end_pulls a b c t1 t2 t3 l1 l2 l3"
  have f1: "filter (\<lambda>request. time_condition now request younger_than) ?ps = ?ps"
    by (rule filter_all) (use assms(3) in blast)
  have f2: "label_filter label_list ?ps = ?ps"
    unfolding label_filter_eq by (rule filter_all) (use assms(3) in blast)
  have sc: "show_counters iter now ?ps label_list ''changes'' younger_than
              = aggregate iter extract_complex ?ps"
    by (simp add: show_counters_def comprehension_filter f1 f2 show_extract_weight_def)
  have ne: "a \<noteq> b" "a \<noteq> c" "b \<noteq> c" using assms(2) by simp_all
  have r: "reviewer_sources \<lparr>user = a, created_at = t1, additions = 10, deletions = 5, labels = l1,
        get_reviews = [Review b ''APPROVED''], get_review_requests = ([], [])\<rparr> = {b}"
    "reviewer_sources \<lparr>user = b, created_at = t2, additions = 0, deletions = 0, labels = l2,
        get_reviews = [Review a ''APPROVED'', Review c ''CHANGES_REQUESTED''],
        get_review_requests = ([], [])\<rparr> = {a}"
    "reviewer_sources \<lparr>user = a, created_at = t3, additions = 0, deletions = 0, labels = l3,
        get_reviews = [], get_review_requests = ([], [])\<rparr> = {}"
    by (simp_all add: reviewer_sources_lists)
  have rc: "fst (aggregate iter extract_complex ?ps) = [(b, 15), (a, 0)]"
    using ne
    by (simp add: aggregate_def end_to_end_pulls_def process_pull_def extract_reviewers_eq r
        set_iteration_empty [OF assms(1)] set_iteration_singleton [OF assms(1)]
        extract_complex_def counter_update_def counter_get_def)
  have cc: "snd (aggregate iter extract_complex ?ps) = [(a, 15), (b, 0)]"
    using ne
    by (simp add: aggregate_def end_to_end_pulls_def snd_process_pull extract_complex_def
        counter_update_def counter_get_def)
  have none: "map_of [(b, 15::int), (a, 0)] c = None"
    using ne by simp
  have diff: "map_of [(b, 15::int), (a, 0)] \<noteq> [b \<mapsto> 15, a \<mapsto> 0, c \<mapsto> 0]"
  proof
    assume "map_of [(b, 15::int), (a, 0)] = [b \<mapsto> 15, a \<mapsto> 0, c \<mapsto> 0]"
    then have "map_of [(b, 15::int), (a, 0)] c = [b \<mapsto> 15, a \<mapsto> 0, c \<mapsto> 0] c" by simp
    with none show False by simp
  qed
  show ?thesis
    unfolding sc rc cc using none diff by simp
qed

theorem end_to_end_changes_requested_missing_witness:
  "set_iteration login_order
   \<and> distinct [NamedUser ''A'', NamedUser ''B'', NamedUser ''C'']
   \<and> fst (show_counters login_order 0
          (end_to_end_pulls (NamedUser ''A'') (NamedUser ''B'') (NamedUser ''C'') 0 0 0
             [Label ''bug''] [Label ''bug'', Label ''urgent''] [Label ''bug''])
          [''bug''] ''changes'' ''month'')
       = [(NamedUser ''B'', 15), (NamedUser ''A'', 0)]
   \<and> snd (show_counters login_order 0
          (end_to_end_pulls (NamedUser ''A'') (NamedUser ''B'') (NamedUser ''C'') 0 0 0
             [Label ''bug''] [Label ''bug'', Label ''urgent''] [Label ''bug''])
          [''bug''] ''changes'' ''month'')
       = [(NamedUser ''A'', 15), (NamedUser ''B'', 0)]"
  using end_to_end_changes_requested_missing [OF set_iteration_login_order,
      of "NamedUser ''A''" "NamedUser ''B''" "NamedUser ''C''" 0 0 0
         "[Label ''bug'']" "[Label ''bug'', Label ''urgent'']" "[Label ''bug'']" 0 "''month''" "[''bug'']"]
  by (simp add: set_iteration_login_order end_to_end_pulls_def time_condition_def timedelta_def)

text \<open>
  C7. The label filter of \<open>show\<close> keeps a pull request exactly when the required labels are
  a subset of the names of its labels; with no required label every pull request is kept.
  Requiring \<open>bug\<close> of a pull request labelled \<open>bug\<close> and \<open>urgent\<close> keeps it, requiring \<open>bug\<close>
  and \<open>missing\<close> drops it. The loop of \<open>show\<close> runs over the filtered list.
\<close>

theorem label_filter_subset:
  "label_filter label_list prs = filter (\<lambda>p. set label_list \<subseteq> name ` set (labels p)) prs
   \<and> (p \<in> set (label_filter label_list prs))
        = (p \<in> set prs \<and> set label_list \<subseteq> name ` set (labels p))
   \<and> label_filter [] prs = prs
   \<and> label_filter [''bug''] [p\<lparr>labels := [Label ''bug'', Label ''urgent'']\<rparr>]
        = [p\<lparr>labels := [Label ''bug'', Label ''urgent'']\<rparr>]
   \<and> label_filter [''bug'', ''missing''] [p\<lparr>labels := [Label ''bug'', Label ''urgent'']\<rparr>] = []
   \<and> show_counters iter now prs label_list weight_method younger_than
        = aggregate iter (show_extract_weight weight_method)
            (label_filter label_list (filter (\<lambda>request. time_condition now request younger_than) prs))"
  by (simp add: label_filter_eq show_counters_def comprehension_filter)

text \<open>
  C8. Both counters only grow. Take the counters after any prefix \<open>pulls\<close> of the processed
  pull requests and after the next pull request \<open>p\<close>, additions and deletions being
  non-negative: every user's value after \<open>p\<close> is at least the value before, every key
  present before is present after, each key has one entry, and no entry is negative.
\<close>

theorem counters_only_grow:
  assumes "set_iteration iter"
    and "\<forall>q \<in> set (pulls @ [p]). 0 \<le> additions q \<and> 0 \<le> deletions q"
    and "aggregate iter (show_extract_weight weight_method) pulls = (rc, cc)"
    and "aggregate iter (show_extract_weight weight_method) (pulls @ [p]) = (rc', cc')"
  shows "(\<forall>u. counter_get rc u \<le> counter_get rc' u)
       \<and> (\<forall>u. counter_get cc u \<le> counter_get cc' u)
       \<and> fst ` set rc \<subseteq> fst ` set rc' \<and> fst ` set cc \<subseteq> fst ` set cc'
       \<and> distinct (map fst rc') \<and> distinct (map fst cc')
       \<and> (\<forall>u v. (u, v) \<in> set rc' \<longrightarrow> 0 \<le> v)
       \<and> (\<forall>u v. (u, v) \<in> set cc' \<longrightarrow> 0 \<le> v)"
proof -
  let ?w = "show_extract_weight weight_method"
  have w: "0 \<le> ?w q" if "q \<in> set (pulls @ [p])" for q
    using that assms(2) by (intro show_extract_weight_nonneg) blast+
  have e: "counter_ok []" by (simp add: counter_ok_def)
  have step: "(rc', cc') = process_pull iter ?w p (rc, cc)"
    using assms(3,4) by (simp add: aggregate_def)
  have ok': "counter_ok rc'" "counter_ok cc'"
    using counter_ok_fold [OF assms(1), of "pulls @ [p]" ?w "([], [])"] w e assms(4)
    unfolding aggregate_def by simp_all
  have wp: "0 \<le> ?w p" using w by simp
  have rc': "rc' = fst (process_pull iter ?w p (rc, cc))"
    and cc': "cc' = snd (process_pull iter ?w p (rc, cc))"
    using step by (metis fst_conv, metis snd_conv)
  show ?thesis
    using process_pull_grows [where iter = iter and w = "?w" and p = p and rc = rc and cc = cc,
        OF assms(1) wp] ok'
    unfolding rc' [symmetric] cc' [symmetric] counter_ok_def by blast
qed

theorem counters_only_grow_witness:
  "set_iteration login_order
   \<and> aggregate login_order (show_extract_weight ''changes'') [one_approval]
        = ([(NamedUser ''B'', 15)], [(NamedUser ''A'', 15)])
   \<and> aggregate login_order (show_extract_weight ''changes'') ([one_approval] @ [empty_diff])
        = ([(NamedUser ''B'', 15), (NamedUser ''A'', 0), (NamedUser ''C'', 0)],
           [(NamedUser ''A'', 15), (NamedUser ''B'', 0)])
   \<and> counter_get [(NamedUser ''B'', 15)] (NamedUser ''B'')
        \<le> counter_get [(NamedUser ''B'', 15), (NamedUser ''A'', 0), (NamedUser ''C'', 0)] (NamedUser ''B'')
   \<and> counter_get [(NamedUser ''A'', 15)] (NamedUser ''B'')
        \<le> counter_get [(NamedUser ''A'', 15), (NamedUser ''B'', 0)] (NamedUser ''B'')
   \<and> fst ` set [(NamedUser ''B'', 15::int)]
        \<subseteq> fst ` set [(NamedUser ''B'', 15::int), (NamedUser ''A'', 0), (NamedUser ''C'', 0)]
   \<and> distinct (map fst [(NamedUser ''B'', 15::int), (NamedUser ''A'', 0), (NamedUser ''C'', 0)])"
proof -
  have a1: "aggregate login_order (show_extract_weight ''changes'') [one_approval]
        = ([(NamedUser ''B'', 15)], [(NamedUser ''A'', 15)])"
    by code_simp
  have a2: "aggregate login_order (show_extract_weight ''changes'') ([one_approval] @ [empty_diff])
        = ([(NamedUser ''B'', 15), (NamedUser ''A'', 0), (NamedUser ''C'', 0)],
           [(NamedUser ''A'', 15), (NamedUser ''B'', 0)])"
    by code_simp
  have nn: "\<forall>q \<in> set ([one_approval] @ [empty_diff]). 0 \<le> additions q \<and> 0 \<le> deletions q"
    by (simp add: one_approval_def empty_diff_def)
  from counters_only_grow [OF set_iteration_login_order nn a1 a2]
  show ?thesis
    using set_iteration_login_order a1 a2 by blast
qed

text \<open>
  C9. Aggregation is deterministic. Two runs over the same list of pull requests, each
  starting from fresh counters and each free to iterate its sets in its own order, end with
  the same reviewer counter (the same keys with the same values, one entry per key) and
  the same creator counter; so do two runs of \<open>show\<close> on the same inputs.
\<close>

theorem aggregation_deterministic:
  assumes "set_iteration iter1" and "set_iteration iter2"
  shows "map_of (fst (aggregate iter1 w pulls)) = map_of (fst (aggregate iter2 w pulls))
       \<and> snd (aggregate iter1 w pulls) = snd (aggregate iter2 w pulls)
       \<and> distinct (map fst (fst (aggregate iter1 w pulls)))
       \<and> distinct (map fst (fst (aggregate iter2 w pulls)))
       \<and> distinct (map fst (snd (aggregate iter1 w pulls)))
       \<and> map_of (fst (show_counters iter1 now pulls label_list weight_method younger_than))
           = map_of (fst (show_counters iter2 now pulls label_list weight_method younger_than))
       \<and> snd (show_counters iter1 now pulls label_list weight_method younger_than)
           = snd (show_counters iter2 now pulls label_list weight_method younger_than)"
proof -
  have m: "map_of (fst (aggregate iter1 w ps)) = map_of (fst (aggregate iter2 w ps))" for w ps
    unfolding aggregate_def
    using fold_process_pull_order [OF assms, of "([], [])" "([], [])" w ps] by simp
  have s: "snd (aggregate iter1 w ps) = snd (aggregate iter2 w ps)" for w ps
    unfolding aggregate_def by (rule snd_fold_process_pull)
  have d: "distinct (map fst (fst (aggregate iter w pulls)))
      \<and> distinct (map fst (snd (aggregate iter w pulls)))" for iter
    unfolding aggregate_def
    using distinct_fold_process_pull [of "([], [])" iter w pulls] by simp
  show ?thesis
    using m s d by (simp add: show_counters_def Let_def)
qed

theorem aggregation_deterministic_witness:
  "set_iteration login_order \<and> set_iteration reverse_login_order
   \<and> fst (aggregate login_order extract_complex [one_approval, empty_diff])
        = [(NamedUser ''B'', 15), (NamedUser ''A'', 0), (NamedUser ''C'', 0)]
   \<and> fst (aggregate reverse_login_order extract_complex [one_approval, empty_diff])
        = [(NamedUser ''B'', 15), (NamedUser ''C'', 0), (NamedUser ''A'', 0)]
   \<and> map_of (fst (aggregate login_order extract_complex [one_approval, empty_diff]))
        = map_of (fst (aggregate reverse_login_order extract_complex [one_approval, empty_diff]))
   \<and> snd (aggregate login_order extract_complex [one_approval, empty_diff])
        = snd (aggregate reverse_login_order extract_complex [one_approval, empty_diff])"
proof -
  have a1: "fst (aggregate login_order extract_complex [one_approval, empty_diff])
        = [(NamedUser ''B'', 15), (NamedUser ''A'', 0), (NamedUser ''C'', 0)]"
    by code_simp
  have a2: "fst (aggregate reverse_login_order extract_complex [one_approval, empty_diff])
        = [(NamedUser ''B'', 15), (NamedUser ''C'', 0), (NamedUser ''A'', 0)]"
    by code_simp
  from aggregation_deterministic [OF set_iteration_login_order set_iteration_reverse_login_order,
      of extract_complex "[one_approval, empty_diff]"]
  show ?thesis
    using set_iteration_login_order set_iteration_reverse_login_order a1 a2 by blast
qed

end
